theory Spec2Isabelle
  imports Complex_Main "HOL-Library.AList" "HOL-Library.List_Lexorder" "HOL-Library.Char_ord"
begin

section \<open>Data model\<close>

text \<open>
  The indicators read Bandicoot \<^verbatim>\<open>User\<close> objects: \<^verbatim>\<open>user.records\<close> (a list of
  records) and \<^verbatim>\<open>user.antennas\<close> (a dict from antenna id to a latitude/longitude
  pair). Of a record they read \<^verbatim>\<open>interaction\<close>, \<^verbatim>\<open>direction\<close>,
  \<^verbatim>\<open>correspondent_id\<close>, \<^verbatim>\<open>datetime\<close>, \<^verbatim>\<open>call_duration\<close> and
  \<^verbatim>\<open>position.antenna\<close>.

  A \<^verbatim>\<open>datetime\<close> is modelled as the number of seconds since a fixed midnight (records
  carry whole seconds), so \<^verbatim>\<open>(a - b).total_seconds()\<close> is integer subtraction and a
  \<^verbatim>\<open>timedelta\<close> is a number of seconds. The finite range of Python's \<^verbatim>\<open>datetime\<close>
  (years 1 to 9999) is not modelled. Attributes that may be \<^verbatim>\<open>None\<close> are options. A Python
  dict is an association list in insertion order (\<^const>\<open>AList.update\<close> keeps the position of
  an existing key and appends a new one, as a dict does).
\<close>

type_synonym coord = "real \<times> real"

record position =
  antenna :: "string option"

record call_record =
  interaction :: string
  direction :: string
  correspondent_id :: "string option"
  datetime :: int
  call_duration :: "int option"
  position :: position

record user =
  records :: "call_record list"
  antennas :: "(string \<times> coord) list option"

text \<open>Python truthiness of \<^verbatim>\<open>r.position.antenna\<close>: \<^verbatim>\<open>None\<close> and the empty string are falsy.\<close>

definition truthy_antenna :: "string option \<Rightarrow> bool" where
  "truthy_antenna a = (case a of None \<Rightarrow> False | Some s \<Rightarrow> s \<noteq> [])"

section \<open>colocation.py\<close>

subsection \<open>antenna_overlap\<close>

record overlap =
  antenna_id :: string
  user_a_time :: int
  user_b_time :: int
  delta_seconds :: int
  coordinates :: "coord option"

text \<open>\<^verbatim>\<open>antennas = user_a.antennas or user_b.antennas or {}\<close>: the first truthy table
  (neither \<^verbatim>\<open>None\<close> nor empty), else the empty dict.\<close>

definition truthy_table :: "(string \<times> coord) list option \<Rightarrow> bool" where
  "truthy_table t = (case t of None \<Rightarrow> False | Some kvs \<Rightarrow> kvs \<noteq> [])"

definition select_antennas :: "user \<Rightarrow> user \<Rightarrow> (string \<times> coord) list" where
  "select_antennas user_a user_b =
     (case antennas user_a of
        Some ta \<Rightarrow> if ta \<noteq> [] then ta
                   else (case antennas user_b of Some tb \<Rightarrow> tb | None \<Rightarrow> [])
      | None \<Rightarrow> (case antennas user_b of Some tb \<Rightarrow> tb | None \<Rightarrow> []))"

text \<open>\<^verbatim>\<open>b_by_antenna\<close>: a \<^verbatim>\<open>defaultdict(list)\<close> filled in one pass over B's records,
  keeping only records whose antenna is truthy.\<close>

definition index_step ::
  "(string \<times> call_record list) list \<Rightarrow> call_record \<Rightarrow> (string \<times> call_record list) list" where
  "index_step idx r =
     (case antenna (position r) of
        None \<Rightarrow> idx
      | Some a \<Rightarrow>
          if a = [] then idx
          else AList.update a
                 ((case map_of idx a of None \<Rightarrow> [] | Some rs \<Rightarrow> rs) @ [r]) idx)"

definition index_by_antenna :: "call_record list \<Rightarrow> (string \<times> call_record list) list" where
  "index_by_antenna rs = foldl index_step [] rs"

definition mk_overlap ::
  "(string \<times> coord) list \<Rightarrow> string \<Rightarrow> call_record \<Rightarrow> call_record \<Rightarrow> overlap" where
  "mk_overlap tbl a rec_a rec_b =
     \<lparr> antenna_id = a,
       user_a_time = datetime rec_a,
       user_b_time = datetime rec_b,
       delta_seconds = \<bar>datetime rec_a - datetime rec_b\<bar>,
       coordinates = map_of tbl a \<rparr>"

text \<open>The body of the loop over A's records: the overlaps one record of A contributes.\<close>

definition overlaps_of_record ::
  "(string \<times> coord) list \<Rightarrow> (string \<times> call_record list) list \<Rightarrow> int \<Rightarrow> call_record
     \<Rightarrow> overlap list" where
  "overlaps_of_record tbl b_by_antenna window_seconds rec_a =
     (case antenna (position rec_a) of
        None \<Rightarrow> []
      | Some a \<Rightarrow>
          (case map_of b_by_antenna a of
             None \<Rightarrow> []
           | Some bucket \<Rightarrow>
               map (mk_overlap tbl a rec_a)
                 (filter (\<lambda>rec_b. \<bar>datetime rec_a - datetime rec_b\<bar> \<le> window_seconds)
                    bucket)))"

definition antenna_overlap :: "user \<Rightarrow> user \<Rightarrow> int \<Rightarrow> overlap list" where
  "antenna_overlap user_a user_b window_minutes =
     (let window_seconds = window_minutes * 60;
          tbl = select_antennas user_a user_b;
          b_by_antenna = index_by_antenna (records user_b);
          overlaps = concat (map (overlaps_of_record tbl b_by_antenna window_seconds)
                               (records user_a))
      in sort_key user_a_time overlaps)"

subsection \<open>travel_pattern_match\<close>

record transition =
  t_from :: "string option"
  t_to :: "string option"
  t_time :: int

record travel_match =
  from_antenna :: "string option"
  to_antenna :: "string option"
  tm_user_a_time :: int
  tm_user_b_time :: int
  tm_delta_seconds :: int

text \<open>The loop \<^verbatim>\<open>for i in range(1, len(sorted_records))\<close> over consecutive pairs.\<close>

fun transitions_of :: "call_record list \<Rightarrow> transition list" where
  "transitions_of (prv # cur # rest) =
     (if antenna (position prv) \<noteq> antenna (position cur)
      then [\<lparr> t_from = antenna (position prv),
               t_to = antenna (position cur),
               t_time = datetime cur \<rparr>]
      else [])
     @ transitions_of (cur # rest)"
| "transitions_of _ = []"

definition get_transitions :: "user \<Rightarrow> transition list" where
  "get_transitions u =
     transitions_of
       (sort_key datetime (filter (\<lambda>r. truthy_antenna (antenna (position r))) (records u)))"

definition travel_pattern_match :: "user \<Rightarrow> user \<Rightarrow> int \<Rightarrow> int \<Rightarrow> travel_match list" where
  "travel_pattern_match user_a user_b window_minutes min_sequence_length =
     (let window_seconds = window_minutes * 60;
          trans_a = get_transitions user_a;
          trans_b = get_transitions user_b
      in if trans_a = [] \<or> trans_b = [] then []
         else concat (map (\<lambda>ta.
                concat (map (\<lambda>tb.
                  if t_from ta = t_from tb \<and> t_to ta = t_to tb
                       \<and> \<bar>t_time ta - t_time tb\<bar> \<le> window_seconds
                  then [\<lparr> from_antenna = t_from ta,
                           to_antenna = t_to ta,
                           tm_user_a_time = t_time ta,
                           tm_user_b_time = t_time tb,
                           tm_delta_seconds = \<bar>t_time ta - t_time tb\<bar> \<rparr>]
                  else []) trans_b)) trans_a))"

subsection \<open>multi_user_colocation\<close>

record hit =
  user_index :: nat
  hit_datetime :: int
  hit_antenna :: string

record colocation =
  co_antenna :: string
  user_indices :: "nat list"
  participant_count :: nat
  earliest_time :: int
  latest_time :: int
  time_span_seconds :: int

text \<open>The timeline \<^verbatim>\<open>all_hits\<close>: one hit per record with a truthy antenna, tagged with
  the index of its user in \<^verbatim>\<open>users\<close>, then sorted by time (Python's sort is stable, and
  so is \<^const>\<open>sort_key\<close>).\<close>

definition hits_of_user :: "nat \<Rightarrow> user \<Rightarrow> hit list" where
  "hits_of_user i u =
     concat (map (\<lambda>r. case antenna (position r) of
                         None \<Rightarrow> []
                       | Some a \<Rightarrow> if a = [] then []
                                   else [\<lparr> user_index = i, hit_datetime = datetime r,
                                           hit_antenna = a \<rparr>])
                 (records u))"

definition all_hits :: "user list \<Rightarrow> hit list" where
  "all_hits users =
     sort_key hit_datetime (concat (map (\<lambda>(i, u). hits_of_user i u) (enumerate 0 users)))"

text \<open>The inner loop \<^verbatim>\<open>for j in range(i + 1, len(all_hits))\<close> over the hits after
  \<open>h\<close>: it breaks at the first hit later than the window and absorbs a hit at the same
  antenna from a user not yet in the cluster.\<close>

fun absorb :: "hit \<Rightarrow> int \<Rightarrow> hit list \<Rightarrow> hit list \<Rightarrow> hit list" where
  "absorb h window_seconds [] cluster = cluster"
| "absorb h window_seconds (other # rest) cluster =
     (if hit_datetime other - hit_datetime h > window_seconds then cluster
      else if hit_antenna other = hit_antenna h \<and> user_index other \<noteq> user_index h
                \<and> user_index other \<notin> set (map user_index cluster)
           then absorb h window_seconds rest (cluster @ [other])
           else absorb h window_seconds rest cluster)"

definition mk_colocation :: "hit \<Rightarrow> hit list \<Rightarrow> colocation" where
  "mk_colocation h cluster =
     (let uis = sorted_list_of_set (set (map user_index cluster));
          times = map hit_datetime cluster
      in \<lparr> co_antenna = hit_antenna h,
           user_indices = uis,
           participant_count = length uis,
           earliest_time = Min (set times),
           latest_time = Max (set times),
           time_span_seconds = Max (set times) - Min (set times) \<rparr>)"

text \<open>The outer loop \<^verbatim>\<open>for i, hit in enumerate(all_hits)\<close>.\<close>

fun find_clusters :: "int \<Rightarrow> hit list \<Rightarrow> colocation list" where
  "find_clusters window_seconds [] = []"
| "find_clusters window_seconds (h # later) =
     (let cluster = absorb h window_seconds later [h]
      in (if length cluster \<ge> 3 then [mk_colocation h cluster] else [])
         @ find_clusters window_seconds later)"

text \<open>Deduplication. The key's third component is \<^verbatim>\<open>earliest_time.isoformat()[:16]\<close>,
  the timestamp cut after the minute: two times have the same prefix exactly when they
  lie in the same minute.\<close>

fun deduplicate :: "(string \<times> nat list \<times> int) set \<Rightarrow> colocation list \<Rightarrow> colocation list" where
  "deduplicate seen [] = []"
| "deduplicate seen (c # cs) =
     (let key = (co_antenna c, user_indices c, earliest_time c div 60)
      in if key \<in> seen then deduplicate seen cs
         else c # deduplicate (insert key seen) cs)"

definition multi_user_colocation :: "user list \<Rightarrow> int \<Rightarrow> colocation list" where
  "multi_user_colocation users window_minutes =
     (let window_seconds = window_minutes * 60
      in deduplicate {} (find_clusters window_seconds (all_hits users)))"

section \<open>network.py\<close>

text \<open>
  Every function of this module walks \<^verbatim>\<open>enumerate(users)\<close> and reads
  \<^verbatim>\<open>user_ids[i]\<close>, which raises \<^verbatim>\<open>IndexError\<close> when \<^verbatim>\<open>user_ids\<close> is shorter than
  \<^verbatim>\<open>users\<close>; the model walks both lists together. \<^verbatim>\<open>sorted([user_id, None])\<close>
  raises \<^verbatim>\<open>TypeError\<close> (a string and \<^verbatim>\<open>None\<close> do not compare).

  Python iterates over a \<^verbatim>\<open>set\<close> in an unspecified order. The model keeps a set as a
  duplicate-free list in order of first occurrence; the theorems below speak of membership
  only.
\<close>

datatype error = IndexError | TypeError

type_synonym edge = "string option \<times> string option"

subsection \<open>build_communication_matrix\<close>

definition edge_of :: "string \<Rightarrow> call_record \<Rightarrow> edge" where
  "edge_of user_id r =
     (if direction r = ''out'' then (Some user_id, correspondent_id r)
      else (correspondent_id r, Some user_id))"

text \<open>\<^verbatim>\<open>matrix[key] += 1\<close> on a \<^verbatim>\<open>defaultdict(int)\<close>.\<close>

definition increment :: "'k \<Rightarrow> ('k \<times> int) list \<Rightarrow> ('k \<times> int) list" where
  "increment k m = AList.update k ((case map_of m k of None \<Rightarrow> 0 | Some n \<Rightarrow> n) + 1) m"

fun matrix_loop :: "user list \<Rightarrow> string list \<Rightarrow> (edge \<times> int) list \<Rightarrow> error + (edge \<times> int) list" where
  "matrix_loop [] ids matrix = Inr matrix"
| "matrix_loop (u # us) [] matrix = Inl IndexError"
| "matrix_loop (u # us) (user_id # ids) matrix =
     matrix_loop us ids (foldl (\<lambda>m r. increment (edge_of user_id r) m) matrix (records u))"

definition build_communication_matrix :: "user list \<Rightarrow> string list \<Rightarrow> error + (edge \<times> int) list" where
  "build_communication_matrix users user_ids = matrix_loop users user_ids []"

subsection \<open>degree_centrality\<close>

record centrality =
  total_contacts :: nat
  in_network_contacts :: nat
  out_of_network_contacts :: nat
  in_network_list :: "string option list"
  out_of_network_list :: "string option list"

text \<open>\<^verbatim>\<open>contacts = set(r.correspondent_id for r in user.records)\<close>.\<close>

definition contacts_of :: "user \<Rightarrow> string option list" where
  "contacts_of u = remdups (map correspondent_id (records u))"

definition centrality_of :: "string list \<Rightarrow> user \<Rightarrow> centrality" where
  "centrality_of user_ids u =
     (let contacts = contacts_of u;
          in_network = filter (\<lambda>c. c \<in> Some ` set user_ids) contacts;
          out_network = filter (\<lambda>c. c \<notin> Some ` set user_ids) contacts
      in \<lparr> total_contacts = length contacts,
           in_network_contacts = length in_network,
           out_of_network_contacts = length out_network,
           in_network_list = in_network,
           out_of_network_list = out_network \<rparr>)"

fun centrality_loop ::
  "string list \<Rightarrow> user list \<Rightarrow> string list \<Rightarrow> (string \<times> centrality) list
     \<Rightarrow> error + (string \<times> centrality) list" where
  "centrality_loop all_ids [] ids results = Inr results"
| "centrality_loop all_ids (u # us) [] results = Inl IndexError"
| "centrality_loop all_ids (u # us) (user_id # ids) results =
     centrality_loop all_ids us ids (AList.update user_id (centrality_of all_ids u) results)"

text \<open>\<^verbatim>\<open>sorted(..., key=..., reverse=True)\<close> keeps items with equal keys in their
  original order, as \<^const>\<open>sort_key\<close> on the negated key does.\<close>

definition degree_centrality :: "user list \<Rightarrow> string list \<Rightarrow> error + (string \<times> centrality) list" where
  "degree_centrality users user_ids =
     (case centrality_loop user_ids users user_ids [] of
        Inl e \<Rightarrow> Inl e
      | Inr results \<Rightarrow> Inr (sort_key (\<lambda>x. - int (total_contacts (snd x))) results))"

subsection \<open>communication_chains\<close>

record comm =
  c_from :: string
  c_to :: "string option"
  c_time :: int

record chain =
  sequence :: "string option list"
  times :: "int list"
  total_time_seconds :: int
  a_to_b :: comm
  b_to_c :: comm

definition out_comms :: "string \<Rightarrow> user \<Rightarrow> comm list" where
  "out_comms user_id u =
     map (\<lambda>r. \<lparr> c_from = user_id, c_to = correspondent_id r, c_time = datetime r \<rparr>)
       (filter (\<lambda>r. direction r = ''out'') (records u))"

fun chain_comms :: "user list \<Rightarrow> string list \<Rightarrow> comm list \<Rightarrow> error + comm list" where
  "chain_comms [] ids all_comms = Inr all_comms"
| "chain_comms (u # us) [] all_comms = Inl IndexError"
| "chain_comms (u # us) (user_id # ids) all_comms =
     chain_comms us ids (all_comms @ out_comms user_id u)"

text \<open>The inner loop \<^verbatim>\<open>for j in range(i + 1, len(all_comms))\<close>: it breaks once the window
  is exceeded and reports every later event sent by the recipient of \<open>comm_ab\<close>.\<close>

fun chains_from :: "int \<Rightarrow> comm \<Rightarrow> comm list \<Rightarrow> chain list" where
  "chains_from window_seconds comm_ab [] = []"
| "chains_from window_seconds comm_ab (comm_bc # rest) =
     (let delta = c_time comm_bc - c_time comm_ab
      in if delta > window_seconds then []
         else (if c_to comm_ab = Some (c_from comm_bc)
               then [\<lparr> sequence = [Some (c_from comm_ab), c_to comm_ab, c_to comm_bc],
                        times = [c_time comm_ab, c_time comm_bc],
                        total_time_seconds = delta,
                        a_to_b = comm_ab,
                        b_to_c = comm_bc \<rparr>]
               else [])
              @ chains_from window_seconds comm_ab rest)"

fun find_chains :: "int \<Rightarrow> comm list \<Rightarrow> chain list" where
  "find_chains window_seconds [] = []"
| "find_chains window_seconds (comm_ab # later) =
     chains_from window_seconds comm_ab later @ find_chains window_seconds later"

definition communication_chains :: "user list \<Rightarrow> string list \<Rightarrow> int \<Rightarrow> error + chain list" where
  "communication_chains users user_ids time_window_minutes =
     (let window_seconds = time_window_minutes * 60
      in case chain_comms users user_ids [] of
           Inl e \<Rightarrow> Inl e
         | Inr all_comms \<Rightarrow> Inr (find_chains window_seconds (sort_key c_time all_comms)))"

subsection \<open>shared_contacts\<close>

text \<open>\<^verbatim>\<open>contact_to_users[contact].append(user_id)\<close> on a \<^verbatim>\<open>defaultdict(list)\<close>.\<close>

definition append_user ::
  "string \<Rightarrow> (string option \<times> string list) list \<Rightarrow> string option
     \<Rightarrow> (string option \<times> string list) list" where
  "append_user user_id m contact =
     AList.update contact ((case map_of m contact of None \<Rightarrow> [] | Some l \<Rightarrow> l) @ [user_id]) m"

fun shared_loop ::
  "user list \<Rightarrow> string list \<Rightarrow> (string option \<times> string list) list
     \<Rightarrow> error + (string option \<times> string list) list" where
  "shared_loop [] ids m = Inr m"
| "shared_loop (u # us) [] m = Inl IndexError"
| "shared_loop (u # us) (user_id # ids) m =
     shared_loop us ids (foldl (append_user user_id) m (contacts_of u))"

definition shared_contacts ::
  "user list \<Rightarrow> string list \<Rightarrow> int \<Rightarrow> error + (string option \<times> string list) list" where
  "shared_contacts users user_ids min_shared =
     (case shared_loop users user_ids [] of
        Inl e \<Rightarrow> Inl e
      | Inr contact_to_users \<Rightarrow>
          Inr (sort_key (\<lambda>x. - int (length (snd x)))
                 (filter (\<lambda>x. int (length (snd x)) \<ge> min_shared) contact_to_users)))"

subsection \<open>communication_volume_matrix\<close>

record volume =
  total :: int
  calls :: int
  texts :: int
  duration :: int

text \<open>\<^verbatim>\<open>tuple(sorted([user_id, r.correspondent_id]))\<close>: strings compare lexicographically
  by character code, and comparing a string with \<^verbatim>\<open>None\<close> raises.\<close>

definition sorted_pair :: "string \<Rightarrow> string option \<Rightarrow> error + string \<times> string" where
  "sorted_pair user_id correspondent =
     (case correspondent of
        None \<Rightarrow> Inl TypeError
      | Some c \<Rightarrow> Inr (if c < user_id then (c, user_id) else (user_id, c)))"

definition add_volume :: "call_record \<Rightarrow> volume \<Rightarrow> volume" where
  "add_volume r v =
     (if interaction r = ''call''
      then v\<lparr> total := total v + 1, calls := calls v + 1,
              duration := (case call_duration r of
                             None \<Rightarrow> duration v
                           | Some d \<Rightarrow> if d \<noteq> 0 then duration v + d else duration v) \<rparr>
      else v\<lparr> total := total v + 1, texts := texts v + 1 \<rparr>)"

fun volume_records ::
  "string \<Rightarrow> call_record list \<Rightarrow> ((string \<times> string) \<times> volume) list
     \<Rightarrow> error + ((string \<times> string) \<times> volume) list" where
  "volume_records user_id [] matrix = Inr matrix"
| "volume_records user_id (r # rs) matrix =
     (case sorted_pair user_id (correspondent_id r) of
        Inl e \<Rightarrow> Inl e
      | Inr pair \<Rightarrow>
          volume_records user_id rs
            (AList.update pair
               (add_volume r (case map_of matrix pair of
                                None \<Rightarrow> \<lparr> total = 0, calls = 0, texts = 0, duration = 0 \<rparr>
                              | Some v \<Rightarrow> v))
               matrix))"

fun volume_loop ::
  "user list \<Rightarrow> string list \<Rightarrow> ((string \<times> string) \<times> volume) list
     \<Rightarrow> error + ((string \<times> string) \<times> volume) list" where
  "volume_loop [] ids matrix = Inr matrix"
| "volume_loop (u # us) [] matrix = Inl IndexError"
| "volume_loop (u # us) (user_id # ids) matrix =
     (case volume_records user_id (records u) matrix of
        Inl e \<Rightarrow> Inl e
      | Inr matrix' \<Rightarrow> volume_loop us ids matrix')"

definition communication_volume_matrix ::
  "user list \<Rightarrow> string list \<Rightarrow> error + ((string \<times> string) \<times> volume) list" where
  "communication_volume_matrix users user_ids =
     (case volume_loop users user_ids [] of
        Inl e \<Rightarrow> Inl e
      | Inr matrix \<Rightarrow> Inr (sort_key (\<lambda>x. - total (snd x)) matrix))"

subsection \<open>network_timeline\<close>

record timed_pair =
  tp_time :: int
  tp_pair :: "string \<times> string"

record bucket =
  b_start :: int
  b_end :: int
  active_pairs :: "(string \<times> string) list"
  unique_pair_count :: nat
  total_communications :: nat

fun timeline_records :: "string \<Rightarrow> call_record list \<Rightarrow> timed_pair list \<Rightarrow> error + timed_pair list" where
  "timeline_records user_id [] all_comms = Inr all_comms"
| "timeline_records user_id (r # rs) all_comms =
     (case sorted_pair user_id (correspondent_id r) of
        Inl e \<Rightarrow> Inl e
      | Inr pair \<Rightarrow>
          timeline_records user_id rs (all_comms @ [\<lparr> tp_time = datetime r, tp_pair = pair \<rparr>]))"

fun timeline_comms :: "user list \<Rightarrow> string list \<Rightarrow> timed_pair list \<Rightarrow> error + timed_pair list" where
  "timeline_comms [] ids all_comms = Inr all_comms"
| "timeline_comms (u # us) [] all_comms = Inl IndexError"
| "timeline_comms (u # us) (user_id # ids) all_comms =
     (case timeline_records user_id (records u) all_comms of
        Inl e \<Rightarrow> Inl e
      | Inr all_comms' \<Rightarrow> timeline_comms us ids all_comms')"

text \<open>\<^verbatim>\<open>t.replace(hour=0, minute=0, second=0, microsecond=0)\<close>: midnight of the day of
  \<open>t\<close> (times are counted from a midnight, a day has 86400 seconds).\<close>

definition midnight :: "int \<Rightarrow> int" where
  "midnight t = t - t mod 86400"

text \<open>The loop \<^verbatim>\<open>while current_start <= all_comms[-1]['time']\<close>. It may run forever, so
  the model is a partial function: \<open>None\<close> stands for no return.\<close>

partial_function (option) bucket_loop ::
  "int \<Rightarrow> timed_pair list \<Rightarrow> int \<Rightarrow> bucket list \<Rightarrow> bucket list option" where
  "bucket_loop bucket_delta all_comms current_start buckets =
     (if current_start \<le> tp_time (last all_comms)
      then
        (let current_end = current_start + bucket_delta;
             bucket_comms = filter (\<lambda>c. current_start \<le> tp_time c \<and> tp_time c < current_end)
                              all_comms
         in bucket_loop bucket_delta all_comms current_end
              (if bucket_comms \<noteq> []
               then buckets @ [\<lparr> b_start = current_start,
                                 b_end = current_end,
                                 active_pairs = remdups (map tp_pair bucket_comms),
                                 unique_pair_count = length (remdups (map tp_pair bucket_comms)),
                                 total_communications = length bucket_comms \<rparr>]
               else buckets))
      else Some buckets)"

definition network_timeline :: "user list \<Rightarrow> string list \<Rightarrow> int \<Rightarrow> (error + bucket list) option" where
  "network_timeline users user_ids time_bucket_hours =
     (case timeline_comms users user_ids [] of
        Inl e \<Rightarrow> Some (Inl e)
      | Inr unsorted \<Rightarrow>
          if unsorted = [] then Some (Inr [])
          else
            (let all_comms = sort_key tp_time unsorted;
                 bucket_delta = time_bucket_hours * 3600;
                 current_start = midnight (tp_time (hd all_comms))
             in map_option Inr (bucket_loop bucket_delta all_comms current_start [])))"

subsection \<open>identify_bridges\<close>

record bridge =
  bridge_user_id :: string
  exclusive_contacts :: "string option list"
  exclusive_count :: nat
  bridge_total_contacts :: nat

text \<open>\<^verbatim>\<open>user_contacts[user_id] = contacts & user_id_set\<close>.\<close>

definition in_network_contacts_of :: "string list \<Rightarrow> user \<Rightarrow> string option list" where
  "in_network_contacts_of user_ids u = filter (\<lambda>c. c \<in> Some ` set user_ids) (contacts_of u)"

fun contacts_loop ::
  "string list \<Rightarrow> user list \<Rightarrow> string list \<Rightarrow> (string \<times> string option list) list
     \<Rightarrow> error + (string \<times> string option list) list" where
  "contacts_loop all_ids [] ids user_contacts = Inr user_contacts"
| "contacts_loop all_ids (u # us) [] user_contacts = Inl IndexError"
| "contacts_loop all_ids (u # us) (user_id # ids) user_contacts =
     contacts_loop all_ids us ids
       (AList.update user_id (in_network_contacts_of all_ids u) user_contacts)"

text \<open>The union of the contact sets of every other key of \<^verbatim>\<open>user_contacts\<close>.\<close>

definition others_contacts :: "(string \<times> string option list) list \<Rightarrow> string \<Rightarrow> string option list" where
  "others_contacts user_contacts user_id =
     remdups (concat (map snd (filter (\<lambda>x. fst x \<noteq> user_id) user_contacts)))"

definition bridge_of ::
  "(string \<times> string option list) list \<Rightarrow> string \<times> string option list \<Rightarrow> bridge list" where
  "bridge_of user_contacts item =
     (let user_id = fst item;
          contacts = snd item;
          exclusive = filter (\<lambda>c. c \<notin> set (others_contacts user_contacts user_id)
                                  \<and> c \<noteq> Some user_id) contacts
      in if exclusive \<noteq> []
         then [\<lparr> bridge_user_id = user_id,
                  exclusive_contacts = exclusive,
                  exclusive_count = length exclusive,
                  bridge_total_contacts = length contacts \<rparr>]
         else [])"

definition identify_bridges :: "user list \<Rightarrow> string list \<Rightarrow> error + bridge list" where
  "identify_bridges users user_ids =
     (case contacts_loop user_ids users user_ids [] of
        Inl e \<Rightarrow> Inl e
      | Inr user_contacts \<Rightarrow>
          Inr (sort_key (\<lambda>b. - int (exclusive_count b))
                 (concat (map (bridge_of user_contacts) user_contacts))))"

section \<open>The coordinate rule as the specification words it\<close>

text \<open>\<^verbatim>\<open>table.get(tag)\<close> on a table that may be \<^verbatim>\<open>None\<close>.\<close>

definition lookup_table :: "(string \<times> coord) list option \<Rightarrow> string \<Rightarrow> coord option" where
  "lookup_table t tag = (case t of None \<Rightarrow> None | Some kvs \<Rightarrow> map_of kvs tag)"

text \<open>The specification's rule, resolved per location: the coordinate of the tag in A's
  table if it has one, else the one in B's table.\<close>

definition spec_coordinate :: "user \<Rightarrow> user \<Rightarrow> string \<Rightarrow> coord option" where
  "spec_coordinate user_a user_b tag =
     (case lookup_table (antennas user_a) tag of
        Some c \<Rightarrow> Some c
      | None \<Rightarrow> lookup_table (antennas user_b) tag)"

section \<open>Counting helpers for the network aggregations\<close>

text \<open>The number of records that \<open>build_communication_matrix\<close> folds into the edge \<open>k\<close>.\<close>

definition edge_count :: "user list \<Rightarrow> string list \<Rightarrow> edge \<Rightarrow> nat" where
  "edge_count users user_ids k =
     sum_list (map (\<lambda>(u, i). length (filter (\<lambda>r. edge_of i r = k) (records u)))
                 (zip users user_ids))"

text \<open>A \<^verbatim>\<open>defaultdict(int)\<close> entry after \<open>n\<close> more increments.\<close>

definition bump :: "int option \<Rightarrow> nat \<Rightarrow> int option" where
  "bump x n = (if n = 0 then x else Some ((case x of None \<Rightarrow> 0 | Some c \<Rightarrow> c) + int n))"

text \<open>The identifiers of the users that have a record with correspondent \<open>c\<close>, in the
  order of \<open>users\<close>.\<close>

definition sharers :: "user list \<Rightarrow> string list \<Rightarrow> string option \<Rightarrow> string list" where
  "sharers users user_ids c =
     map snd (filter (\<lambda>(u, i). c \<in> correspondent_id ` set (records u)) (zip users user_ids))"

text \<open>A \<^verbatim>\<open>defaultdict(list)\<close> entry after appending the list \<open>l\<close>.\<close>

definition extend :: "string list option \<Rightarrow> string list \<Rightarrow> string list option" where
  "extend x l = (if l = [] then x else Some ((case x of None \<Rightarrow> [] | Some l0 \<Rightarrow> l0) @ l))"

text \<open>The chain record that \<open>communication_chains\<close> builds from an event A->B and a
  later event B->C.\<close>

definition chain_of :: "comm \<Rightarrow> comm \<Rightarrow> chain" where
  "chain_of comm_ab comm_bc =
     \<lparr> sequence = [Some (c_from comm_ab), c_to comm_ab, c_to comm_bc],
       times = [c_time comm_ab, c_time comm_bc],
       total_time_seconds = c_time comm_bc - c_time comm_ab,
       a_to_b = comm_ab,
       b_to_c = comm_bc \<rparr>"

section \<open>Example data\<close>

definition mk_rec :: "string \<Rightarrow> string option \<Rightarrow> int \<Rightarrow> string option \<Rightarrow> call_record" where
  "mk_rec dir corr t ant =
     \<lparr> interaction = ''call'', direction = dir, correspondent_id = corr, datetime = t,
       call_duration = None, position = \<lparr> antenna = ant \<rparr> \<rparr>"

text \<open>A is at T1 at 10:00:00 and 10:40:00, B at T1 at 10:05:00. A's table knows only T2,
  B's table knows T1.\<close>

definition ex_a :: user where
  "ex_a = \<lparr> records = [mk_rec ''out'' (Some ''B'') 36000 (Some ''T1''),
                       mk_rec ''out'' (Some ''B'') 38400 (Some ''T1'')],
            antennas = Some [(''T2'', (3, 4))] \<rparr>"

definition ex_b :: user where
  "ex_b = \<lparr> records = [mk_rec ''out'' (Some ''A'') 36300 (Some ''T1'')],
            antennas = Some [(''T1'', (1, 2))] \<rparr>"

text \<open>A user whose only record is an outgoing call to \<open>callee\<close> at time \<open>t\<close>.\<close>

definition calls_at :: "string \<Rightarrow> int \<Rightarrow> user" where
  "calls_at callee t = \<lparr> records = [mk_rec ''out'' (Some callee) t None], antennas = None \<rparr>"

text \<open>A user whose only record is an outgoing call with no correspondent.\<close>

definition null_caller :: user where
  "null_caller = \<lparr> records = [mk_rec ''out'' None 0 None], antennas = None \<rparr>"

text \<open>A user with a single record, at antenna \<open>a\<close> at time \<open>t\<close>.\<close>

definition at_antenna :: "int \<Rightarrow> string \<Rightarrow> user" where
  "at_antenna t a = \<lparr> records = [mk_rec ''out'' (Some ''X'') t (Some a)], antennas = None \<rparr>"

section \<open>Properties of antenna_overlap\<close>

lemma map_of_index_step:
  "map_of (index_step idx r) a =
     (if antenna (position r) = Some a \<and> a \<noteq> []
      then Some ((case map_of idx a of None \<Rightarrow> [] | Some rs \<Rightarrow> rs) @ [r])
      else map_of idx a)"
  by (auto simp: index_step_def update_conv' split: option.splits)

lemma map_of_index_by_antenna:
  "map_of (index_by_antenna rs) a =
     (if a \<noteq> [] \<and> filter (\<lambda>r. antenna (position r) = Some a) rs \<noteq> []
      then Some (filter (\<lambda>r. antenna (position r) = Some a) rs) else None)"
proof (induction rs rule: rev_induct)
  case Nil
  then show ?case by (simp add: index_by_antenna_def)
next
  case (snoc r rs)
  have "index_by_antenna (rs @ [r]) = index_step (index_by_antenna rs) r"
    by (simp add: index_by_antenna_def)
  with snoc show ?case
    by (auto simp: map_of_index_step)
qed

lemma set_overlaps_of_record:
  "set (overlaps_of_record tbl (index_by_antenna rs) w rec_a) =
     {mk_overlap tbl a rec_a rec_b | a rec_b.
        antenna (position rec_a) = Some a \<and> a \<noteq> [] \<and> rec_b \<in> set rs
        \<and> antenna (position rec_b) = Some a
        \<and> \<bar>datetime rec_a - datetime rec_b\<bar> \<le> w}"
proof (cases "antenna (position rec_a)")
  case None
  then show ?thesis by (simp add: overlaps_of_record_def)
next
  case (Some a)
  let ?bucket = "filter (\<lambda>r. antenna (position r) = Some a) rs"
  show ?thesis
  proof (cases "a \<noteq> [] \<and> ?bucket \<noteq> []")
    case True
    then have "overlaps_of_record tbl (index_by_antenna rs) w rec_a =
        map (mk_overlap tbl a rec_a)
          (filter (\<lambda>rec_b. \<bar>datetime rec_a - datetime rec_b\<bar> \<le> w) ?bucket)"
      using Some by (simp add: overlaps_of_record_def map_of_index_by_antenna)
    then show ?thesis using Some True by auto
  next
    case False
    then have "map_of (index_by_antenna rs) a = None"
      by (auto simp: map_of_index_by_antenna)
    then have "overlaps_of_record tbl (index_by_antenna rs) w rec_a = []"
      using Some by (simp add: overlaps_of_record_def)
    moreover have "\<And>rec_b. a \<noteq> [] \<Longrightarrow> rec_b \<in> set rs
        \<Longrightarrow> antenna (position rec_b) = Some a \<Longrightarrow> False"
      using False by (auto simp: filter_empty_conv)
    ultimately show ?thesis using Some by auto
  qed
qed

lemma set_antenna_overlap:
  "set (antenna_overlap user_a user_b w) =
     {mk_overlap (select_antennas user_a user_b) a rec_a rec_b | a rec_a rec_b.
        rec_a \<in> set (records user_a) \<and> rec_b \<in> set (records user_b)
        \<and> antenna (position rec_a) = Some a \<and> a \<noteq> []
        \<and> antenna (position rec_b) = Some a
        \<and> \<bar>datetime rec_a - datetime rec_b\<bar> \<le> w * 60}"
  unfolding antenna_overlap_def Let_def set_sort set_concat set_map
  by (auto simp: set_overlaps_of_record)

lemmas overlap_eval = antenna_overlap_def select_antennas_def index_by_antenna_def
  index_step_def overlaps_of_record_def mk_overlap_def mk_rec_def

text \<open>
  C6 (window monotonicity). For windows \<open>w1 < w2\<close> every overlap that
  \<open>antenna_overlap\<close> returns with window \<open>w1\<close> is also returned with window \<open>w2\<close>.
\<close>

theorem antenna_overlap_window_mono:
  "w1 < w2 \<Longrightarrow> set (antenna_overlap user_a user_b w1) \<subseteq> set (antenna_overlap user_a user_b w2)"
  unfolding set_antenna_overlap by (auto; fastforce)

theorem antenna_overlap_window_mono_witness:
  "(5::int) < 30
   \<and> antenna_overlap ex_a ex_b 5 \<noteq> []
   \<and> set (antenna_overlap ex_a ex_b 5) \<subseteq> set (antenna_overlap ex_a ex_b 30)"
  using antenna_overlap_window_mono [of 5 30 ex_a ex_b]
  by (simp add: overlap_eval ex_a_def ex_b_def)

text \<open>
  C5 (symmetry). \<open>antenna_overlap A B W\<close> and \<open>antenna_overlap B A W\<close> report the same set
  of (location, timestamp pair) matches, with the A-side and B-side timestamps swapped.
  This holds for all record collections and all windows, so in particular for non-empty
  collections and \<open>W \<ge> 0\<close>.
\<close>

theorem antenna_overlap_symmetric:
  "(\<lambda>ov. (antenna_id ov, user_a_time ov, user_b_time ov)) ` set (antenna_overlap user_a user_b w)
   = (\<lambda>ov. (antenna_id ov, user_b_time ov, user_a_time ov)) ` set (antenna_overlap user_b user_a w)"
  unfolding set_antenna_overlap
  by (auto simp: mk_overlap_def image_def abs_minus_commute; fastforce simp: abs_minus_commute)

text \<open>
  C1 as stated fails: the coordinate is not resolved per location. With A's table
  non-empty but silent about T1, and B's table knowing T1, the overlap at T1 carries no
  coordinate.
\<close>

theorem antenna_overlap_coordinates_counterexample:
  "antenna_overlap ex_a ex_b 30 =
     [\<lparr> antenna_id = ''T1'', user_a_time = 36000, user_b_time = 36300, delta_seconds = 300,
        coordinates = None \<rparr>]
   \<and> spec_coordinate ex_a ex_b ''T1'' = Some (1, 2)"
  by (simp add: overlap_eval ex_a_def ex_b_def spec_coordinate_def lookup_table_def)

text \<open>
  C1, amended. Every overlap result carries the coordinate that ONE table gives for its
  location: A's table when that table is non-empty, otherwise B's table (no coordinate
  when the chosen table lacks the location or when neither table exists). The choice
  between the tables is made once per call, not per location.
\<close>

theorem antenna_overlap_coordinates:
  "\<forall>ov \<in> set (antenna_overlap user_a user_b w).
     coordinates ov =
       (if truthy_table (antennas user_a) then lookup_table (antennas user_a) (antenna_id ov)
        else lookup_table (antennas user_b) (antenna_id ov))"
  unfolding set_antenna_overlap
  by (auto simp: mk_overlap_def select_antennas_def truthy_table_def lookup_table_def
           split: option.splits)

theorem antenna_overlap_coordinates_witness:
  "antenna_overlap ex_b ex_a 30 \<noteq> []
   \<and> truthy_table (antennas ex_b)
   \<and> coordinates ` set (antenna_overlap ex_b ex_a 30) = {Some (1, 2)}"
  using antenna_overlap_coordinates [of ex_b ex_a 30]
  by (simp add: overlap_eval ex_a_def ex_b_def truthy_table_def lookup_table_def)

section \<open>Properties of travel_pattern_match\<close>

text \<open>
  C8. The result of \<open>travel_pattern_match\<close> is the same for any two values of
  \<open>min_sequence_length\<close>: the parameter is accepted and never read.
\<close>

theorem travel_pattern_match_ignores_min_sequence_length:
  "travel_pattern_match user_a user_b w m1 = travel_pattern_match user_a user_b w m2"
  by (simp add: travel_pattern_match_def)

section \<open>Properties of multi_user_colocation\<close>

lemma absorb_distinct:
  "distinct (map user_index cluster) \<Longrightarrow> distinct (map user_index (absorb h w rest cluster))"
  by (induction rest arbitrary: cluster) auto

lemma absorb_subset:
  "set (absorb h w rest cluster) \<subseteq> set cluster \<union> set rest"
proof (induction rest arbitrary: cluster)
  case Nil
  then show ?case by simp
next
  case (Cons other rest)
  have "set (absorb h w rest (cluster @ [other])) \<subseteq> set (cluster @ [other]) \<union> set rest"
    by (rule Cons.IH)
  moreover have "set (absorb h w rest cluster) \<subseteq> set cluster \<union> set rest"
    by (rule Cons.IH)
  ultimately show ?case by auto
qed

lemma set_deduplicate: "set (deduplicate seen cs) \<subseteq> set cs"
  by (induction cs arbitrary: seen) (auto simp: Let_def)

lemma find_clusters_elem:
  "c \<in> set (find_clusters w hs) \<Longrightarrow>
     \<exists>h cluster. c = mk_colocation h cluster \<and> distinct (map user_index cluster)
        \<and> 3 \<le> length cluster \<and> set cluster \<subseteq> set hs"
proof (induction hs)
  case Nil
  then show ?case by simp
next
  case (Cons h later)
  let ?cl = "absorb h w later [h]"
  from Cons.prems consider
      (here) "3 \<le> length ?cl" "c = mk_colocation h ?cl"
    | (later) "c \<in> set (find_clusters w later)"
    by (auto simp: Let_def split: if_splits)
  then show ?case
  proof cases
    case here
    have "distinct (map user_index ?cl)" by (rule absorb_distinct) simp
    moreover have "set ?cl \<subseteq> set (h # later)" using absorb_subset[of h w later "[h]"] by auto
    ultimately show ?thesis using here by blast
  next
    case later
    from Cons.IH[OF this] show ?thesis by auto
  qed
qed

lemma mk_colocation_card:
  assumes "distinct (map user_index cluster)"
  shows "card (set (user_indices (mk_colocation h cluster))) = length cluster"
    and "participant_count (mk_colocation h cluster) = length cluster"
    and "distinct (user_indices (mk_colocation h cluster))"
    and "set (user_indices (mk_colocation h cluster)) = user_index ` set cluster"
proof -
  have "card (set (map user_index cluster)) = length cluster"
    using assms distinct_card by fastforce
  then show "card (set (user_indices (mk_colocation h cluster))) = length cluster"
    and "participant_count (mk_colocation h cluster) = length cluster"
    by (simp_all add: mk_colocation_def Let_def)
  show "distinct (user_indices (mk_colocation h cluster))"
    by (simp add: mk_colocation_def Let_def)
  show "set (user_indices (mk_colocation h cluster)) = user_index ` set cluster"
    by (simp add: mk_colocation_def Let_def)
qed

lemma user_index_all_hits:
  "h \<in> set (all_hits users) \<Longrightarrow> user_index h < length users"
  by (auto simp: all_hits_def hits_of_user_def in_set_enumerate_eq split: option.splits if_splits)

lemma multi_user_colocation_elem:
  assumes "c \<in> set (multi_user_colocation users w)"
  shows "3 \<le> card (set (user_indices c)) \<and> participant_count c = card (set (user_indices c))
         \<and> distinct (user_indices c) \<and> set (user_indices c) \<subseteq> {..<length users}"
proof -
  from assms have "c \<in> set (find_clusters (w * 60) (all_hits users))"
    using set_deduplicate by (fastforce simp: multi_user_colocation_def Let_def)
  from find_clusters_elem[OF this] obtain h cluster where
    c: "c = mk_colocation h cluster" and d: "distinct (map user_index cluster)"
    and l: "3 \<le> length cluster" and s: "set cluster \<subseteq> set (all_hits users)"
    by blast
  have n: "card (set (user_indices c)) = length cluster"
    unfolding c by (rule mk_colocation_card(1)[OF d])
  have p: "participant_count c = length cluster"
    unfolding c by (rule mk_colocation_card(2)[OF d])
  have q: "distinct (user_indices c)"
    unfolding c by (rule mk_colocation_card(3)[OF d])
  have "set (user_indices c) = user_index ` set cluster"
    unfolding c by (rule mk_colocation_card(4)[OF d])
  then have "set (user_indices c) \<subseteq> {..<length users}"
    using s user_index_all_hits by auto
  then show ?thesis
    using n p q l by simp
qed

text \<open>
  C4 (cluster minimum). Every cluster that \<open>multi_user_colocation\<close> emits has at least
  three distinct participants (and its participant count is that number); with fewer
  than three users the result is empty.
\<close>

theorem multi_user_colocation_min3:
  "(\<forall>c \<in> set (multi_user_colocation users w).
      3 \<le> card (set (user_indices c)) \<and> participant_count c = card (set (user_indices c)))
   \<and> (length users < 3 \<longrightarrow> multi_user_colocation users w = [])"
proof (intro conjI impI)
  show "\<forall>c \<in> set (multi_user_colocation users w).
      3 \<le> card (set (user_indices c)) \<and> participant_count c = card (set (user_indices c))"
    using multi_user_colocation_elem by blast
  assume few: "length users < 3"
  show "multi_user_colocation users w = []"
  proof (rule ccontr)
    assume "multi_user_colocation users w \<noteq> []"
    then obtain c where c: "c \<in> set (multi_user_colocation users w)"
      by (cases "multi_user_colocation users w") auto
    from multi_user_colocation_elem[OF c]
    have "3 \<le> card (set (user_indices c))" and "set (user_indices c) \<subseteq> {..<length users}"
      by simp_all
    then have "3 \<le> card {..<length users}"
      using card_mono[of "{..<length users}" "set (user_indices c)"] by simp
    with few show False by simp
  qed
qed

lemmas muc_eval = multi_user_colocation_def all_hits_def hits_of_user_def enumerate_eq_zip
  mk_colocation_def at_antenna_def mk_rec_def Let_def sorted_list_of_set_sort_remdups upt_rec

theorem multi_user_colocation_min3_witness:
  "multi_user_colocation [at_antenna 0 ''T1'', at_antenna 60 ''T1'', at_antenna 120 ''T1''] 30 =
     [\<lparr> co_antenna = ''T1'', user_indices = [0, 1, 2], participant_count = 3,
        earliest_time = 0, latest_time = 120, time_span_seconds = 120 \<rparr>]
   \<and> length [at_antenna 0 ''T1'', at_antenna 60 ''T1''] < 3
   \<and> multi_user_colocation [at_antenna 0 ''T1'', at_antenna 60 ''T1''] 30 = []"
  using multi_user_colocation_min3
          [of "[at_antenna 0 ''T1'', at_antenna 60 ''T1'', at_antenna 120 ''T1'']" 30]
        multi_user_colocation_min3 [of "[at_antenna 0 ''T1'', at_antenna 60 ''T1'']" 30]
  by (simp add: muc_eval)

section \<open>Properties of communication_chains\<close>

lemmas chains_eval = communication_chains_def out_comms_def calls_at_def mk_rec_def Let_def

text \<open>
  C7 (chain correctness). On the timeline A->B at \<open>t0\<close>, B->C at \<open>t0 + 300\<close>, C->D at
  \<open>t0 + 4000\<close>, with a window of 600 seconds (10 minutes), \<open>communication_chains\<close>
  returns exactly one chain: [A, B, C] with the timestamps \<open>t0\<close> and \<open>t0 + 300\<close>. No chain
  [B, C, D] is reported.
\<close>

theorem communication_chains_scenario:
  "communication_chains [calls_at B t0, calls_at C (t0 + 300), calls_at D (t0 + 4000)] [A, B, C] 10 =
     Inr [\<lparr> sequence = [Some A, Some B, Some C],
             times = [t0, t0 + 300],
             total_time_seconds = 300,
             a_to_b = \<lparr> c_from = A, c_to = Some B, c_time = t0 \<rparr>,
             b_to_c = \<lparr> c_from = B, c_to = Some C, c_time = t0 + 300 \<rparr> \<rparr>]"
  by (simp add: chains_eval)

lemma chains_from_set:
  assumes "sorted (map c_time rest)"
  shows "set (chains_from w ab rest) =
           {chain_of ab bc | bc. bc \<in> set rest \<and> c_time bc - c_time ab \<le> w
                                 \<and> c_to ab = Some (c_from bc)}"
  using assms
proof (induction rest)
  case Nil
  then show ?case by simp
next
  case (Cons x rest)
  then have later: "\<And>y. y \<in> set rest \<Longrightarrow> c_time x \<le> c_time y"
    and IH: "set (chains_from w ab rest) =
           {chain_of ab bc | bc. bc \<in> set rest \<and> c_time bc - c_time ab \<le> w
                                 \<and> c_to ab = Some (c_from bc)}"
    by auto
  show ?case
  proof (cases "c_time x - c_time ab > w")
    case True
    then have "\<And>y. y \<in> set (x # rest) \<Longrightarrow> \<not> c_time y - c_time ab \<le> w"
      using later by fastforce
    with True show ?thesis by (auto simp: Let_def)
  next
    case False
    then show ?thesis by (auto simp: Let_def IH chain_of_def)
  qed
qed

lemma before_Cons:
  "(\<exists>pre mid post. x # later = pre @ ab # mid @ bc # post) \<longleftrightarrow>
     (ab = x \<and> bc \<in> set later) \<or> (\<exists>pre mid post. later = pre @ ab # mid @ bc # post)"
proof
  assume "\<exists>pre mid post. x # later = pre @ ab # mid @ bc # post"
  then obtain pre mid post where eq: "x # later = pre @ ab # mid @ bc # post" by blast
  show "(ab = x \<and> bc \<in> set later) \<or> (\<exists>pre mid post. later = pre @ ab # mid @ bc # post)"
  proof (cases pre)
    case Nil
    with eq show ?thesis by auto
  next
    case (Cons y pre')
    with eq have "later = pre' @ ab # mid @ bc # post" by simp
    then show ?thesis by blast
  qed
next
  assume "(ab = x \<and> bc \<in> set later) \<or> (\<exists>pre mid post. later = pre @ ab # mid @ bc # post)"
  then show "\<exists>pre mid post. x # later = pre @ ab # mid @ bc # post"
  proof
    assume a: "ab = x \<and> bc \<in> set later"
    then obtain mid post where "later = mid @ bc # post" by (auto dest: split_list)
    with a have "x # later = [] @ ab # mid @ bc # post" by simp
    then show ?thesis by blast
  next
    assume "\<exists>pre mid post. later = pre @ ab # mid @ bc # post"
    then obtain pre mid post where "later = pre @ ab # mid @ bc # post" by blast
    then have "x # later = (x # pre) @ ab # mid @ bc # post" by simp
    then show ?thesis by blast
  qed
qed

lemma find_chains_set:
  assumes "sorted (map c_time cs)"
  shows "set (find_chains w cs) =
           {chain_of ab bc | ab bc.
              (\<exists>pre mid post. cs = pre @ ab # mid @ bc # post)
              \<and> c_time bc - c_time ab \<le> w \<and> c_to ab = Some (c_from bc)}"
  using assms
proof (induction cs)
  case Nil
  then show ?case by simp
next
  case (Cons x later)
  then have s: "sorted (map c_time later)" by simp
  have "set (find_chains w (x # later)) =
      set (chains_from w x later) \<union> set (find_chains w later)" by simp
  also have "\<dots> =
      {chain_of x bc | bc. bc \<in> set later \<and> c_time bc - c_time x \<le> w
                                 \<and> c_to x = Some (c_from bc)}
      \<union> {chain_of ab bc | ab bc.
              (\<exists>pre mid post. later = pre @ ab # mid @ bc # post)
              \<and> c_time bc - c_time ab \<le> w \<and> c_to ab = Some (c_from bc)}"
    by (simp only: chains_from_set[OF s] Cons.IH[OF s])
  also have "\<dots> = {chain_of ab bc | ab bc.
              (\<exists>pre mid post. x # later = pre @ ab # mid @ bc # post)
              \<and> c_time bc - c_time ab \<le> w \<and> c_to ab = Some (c_from bc)}"
    unfolding before_Cons by blast
  finally show ?case .
qed

lemma chain_comms_eq:
  "length us \<le> length ids \<Longrightarrow>
     chain_comms us ids acc = Inr (acc @ concat (map (\<lambda>(u, i). out_comms i u) (zip us ids)))"
  by (induction us ids acc rule: chain_comms.induct) auto

text \<open>
  C9. The only link \<open>communication_chains\<close> checks between the two events of a chain is
  that the recipient of the first is the sender of the second. With at least as many
  identifiers as users, the timeline holds every outgoing record as an event (sender,
  recipient, time). Whenever the timeline is built, the chains returned are exactly the
  chains of the pairs of events where the first stands before the second in the timeline
  sorted by time, the second is at most the window later, and the recipient of the first
  is the sender of the second; nothing relates the first and the third party. So when A
  calls B at \<open>t\<close> and B calls A at \<open>t'\<close>, no earlier than \<open>t\<close> and within the window, the
  chain [A, B, A] is emitted.
\<close>

theorem communication_chains_link_only:
  "(length users \<le> length user_ids \<longrightarrow>
      chain_comms users user_ids [] =
        Inr (concat (map (\<lambda>(u, i). out_comms i u) (zip users user_ids))))
   \<and> (chain_comms users user_ids [] = Inr all_comms \<longrightarrow>
      (\<exists>chains. communication_chains users user_ids w = Inr chains
         \<and> set chains =
             {chain_of ab bc | ab bc.
                (\<exists>pre mid post. sort_key c_time all_comms = pre @ ab # mid @ bc # post)
                \<and> c_time bc - c_time ab \<le> w * 60 \<and> c_to ab = Some (c_from bc)}))
   \<and> (t \<le> t' \<and> t' - t \<le> w * 60 \<longrightarrow>
        communication_chains [calls_at B t, calls_at A t'] [A, B] w =
          Inr [\<lparr> sequence = [Some A, Some B, Some A],
                  times = [t, t'],
                  total_time_seconds = t' - t,
                  a_to_b = \<lparr> c_from = A, c_to = Some B, c_time = t \<rparr>,
                  b_to_c = \<lparr> c_from = B, c_to = Some A, c_time = t' \<rparr> \<rparr>])"
proof (intro conjI impI)
  assume "length users \<le> length user_ids"
  from chain_comms_eq[OF this, of "[]"]
  show "chain_comms users user_ids [] =
        Inr (concat (map (\<lambda>(u, i). out_comms i u) (zip users user_ids)))"
    by simp
next
  assume ok: "chain_comms users user_ids [] = Inr all_comms"
  have "sorted (map c_time (sort_key c_time all_comms))" by simp
  from find_chains_set[OF this, of "w * 60"] ok
  show "\<exists>chains. communication_chains users user_ids w = Inr chains
         \<and> set chains =
             {chain_of ab bc | ab bc.
                (\<exists>pre mid post. sort_key c_time all_comms = pre @ ab # mid @ bc # post)
                \<and> c_time bc - c_time ab \<le> w * 60 \<and> c_to ab = Some (c_from bc)}"
    by (simp add: communication_chains_def)
next
  assume "t \<le> t' \<and> t' - t \<le> w * 60"
  then show "communication_chains [calls_at B t, calls_at A t'] [A, B] w =
          Inr [\<lparr> sequence = [Some A, Some B, Some A],
                  times = [t, t'],
                  total_time_seconds = t' - t,
                  a_to_b = \<lparr> c_from = A, c_to = Some B, c_time = t \<rparr>,
                  b_to_c = \<lparr> c_from = B, c_to = Some A, c_time = t' \<rparr> \<rparr>]"
    by (simp add: chains_eval)
qed

theorem communication_chains_link_only_witness:
  "length [calls_at ''B'' 0, calls_at ''A'' 60] \<le> length [''A'', ''B'']
   \<and> chain_comms [calls_at ''B'' 0, calls_at ''A'' 60] [''A'', ''B''] [] =
     Inr [\<lparr> c_from = ''A'', c_to = Some ''B'', c_time = 0 \<rparr>,
          \<lparr> c_from = ''B'', c_to = Some ''A'', c_time = 60 \<rparr>]
   \<and> (0::int) \<le> 60 \<and> (60::int) - 0 \<le> 30 * 60
   \<and> communication_chains [calls_at ''B'' 0, calls_at ''A'' 60] [''A'', ''B''] 30 =
     Inr [chain_of \<lparr> c_from = ''A'', c_to = Some ''B'', c_time = 0 \<rparr>
                   \<lparr> c_from = ''B'', c_to = Some ''A'', c_time = 60 \<rparr>]
   \<and> sequence (chain_of \<lparr> c_from = ''A'', c_to = Some ''B'', c_time = 0 \<rparr>
                          \<lparr> c_from = ''B'', c_to = Some ''A'', c_time = 60 \<rparr>)
       = [Some ''A'', Some ''B'', Some ''A'']"
  using communication_chains_link_only
          [of "[calls_at ''B'' 0, calls_at ''A'' 60]" "[''A'', ''B'']"
              "[\<lparr> c_from = ''A'', c_to = Some ''B'', c_time = 0 \<rparr>,
                \<lparr> c_from = ''B'', c_to = Some ''A'', c_time = 60 \<rparr>]" 30 0 60 "''B''" "''A''"]
  by (simp add: chains_eval chain_of_def)

section \<open>Properties of network_timeline\<close>

lemma bucket_loop_terminates:
  assumes "0 < bucket_delta"
  shows "\<exists>bs. bucket_loop bucket_delta all_comms current_start buckets = Some bs"
proof (induction "nat (tp_time (last all_comms) - current_start + 1)"
         arbitrary: current_start buckets rule: less_induct)
  case less
  show ?case
  proof (cases "current_start \<le> tp_time (last all_comms)")
    case False
    then show ?thesis by (subst bucket_loop.simps) simp
  next
    case True
    have "nat (tp_time (last all_comms) - (current_start + bucket_delta) + 1)
            < nat (tp_time (last all_comms) - current_start + 1)"
      using True assms by linarith
    from less[OF this] show ?thesis
      using True by (subst bucket_loop.simps) (simp add: Let_def)
  qed
qed

lemma bucket_loop_stuck:
  assumes "bucket_loop bucket_delta all_comms current_start buckets = Some bs"
  shows "\<not> (bucket_delta = 0 \<and> current_start \<le> tp_time (last all_comms))"
proof (rule bucket_loop.raw_induct
         [where P = "\<lambda>d cs s acc res. \<not> (d = 0 \<and> s \<le> tp_time (last cs))", OF _ assms])
  fix loop :: "int \<Rightarrow> timed_pair list \<Rightarrow> int \<Rightarrow> bucket list \<Rightarrow> bucket list option"
    and d :: int and cs :: "timed_pair list" and s :: int and acc :: "bucket list"
    and res :: "bucket list"
  assume IH: "\<And>d cs s acc res. loop d cs s acc = Some res \<Longrightarrow> \<not> (d = 0 \<and> s \<le> tp_time (last cs))"
  assume step: "(if s \<le> tp_time (last cs)
      then
        (let current_end = s + d;
             bucket_comms = filter (\<lambda>c. s \<le> tp_time c \<and> tp_time c < current_end) cs
         in loop d cs current_end
              (if bucket_comms \<noteq> []
               then acc @ [\<lparr> b_start = s,
                                 b_end = current_end,
                                 active_pairs = remdups (map tp_pair bucket_comms),
                                 unique_pair_count = length (remdups (map tp_pair bucket_comms)),
                                 total_communications = length bucket_comms \<rparr>]
               else acc))
      else Some acc) = Some res"
  show "\<not> (d = 0 \<and> s \<le> tp_time (last cs))"
  proof
    assume stuck: "d = 0 \<and> s \<le> tp_time (last cs)"
    with step have "loop d cs s acc = Some res"
      by (simp add: Let_def)
    from IH[OF this] stuck show False by simp
  qed
qed

lemma bucket_loop_zero:
  assumes "current_start \<le> tp_time (last all_comms)"
  shows "bucket_loop 0 all_comms current_start buckets = None"
proof (cases "bucket_loop 0 all_comms current_start buckets")
  case None
  then show ?thesis .
next
  case (Some bs)
  from bucket_loop_stuck[OF this] assms show ?thesis by simp
qed

lemma midnight_le: "midnight t \<le> t"
  by (simp add: midnight_def)

lemma hd_le_last_sorted:
  fixes f :: "'a \<Rightarrow> int"
  assumes "sorted (map f xs)" and "xs \<noteq> []"
  shows "f (hd xs) \<le> f (last xs)"
proof (cases xs)
  case Nil
  with assms show ?thesis by simp
next
  case (Cons a list)
  show ?thesis
  proof (cases "list = []")
    case True
    with Cons show ?thesis by simp
  next
    case False
    then have "last list \<in> set list" by simp
    with assms(1) Cons False show ?thesis by auto
  qed
qed

text \<open>
  C10. With \<open>time_bucket_hours > 0\<close>, \<open>network_timeline\<close> returns on every input. With
  \<open>time_bucket_hours = 0\<close> and at least one communication collected (the collection loop
  raised no error and \<open>all_comms\<close> is not empty), the bucketing loop never moves its start
  past the last event and the function does not return.
\<close>

theorem network_timeline_termination:
  "(0 < time_bucket_hours \<longrightarrow> (\<exists>res. network_timeline users user_ids time_bucket_hours = Some res))
   \<and> (time_bucket_hours = 0
        \<and> (\<exists>all_comms. timeline_comms users user_ids [] = Inr all_comms \<and> all_comms \<noteq> [])
      \<longrightarrow> network_timeline users user_ids time_bucket_hours = None)"
proof (intro conjI impI)
  assume pos: "0 < time_bucket_hours"
  show "\<exists>res. network_timeline users user_ids time_bucket_hours = Some res"
  proof (cases "timeline_comms users user_ids []")
    case (Inl e)
    then show ?thesis by (simp add: network_timeline_def)
  next
    case (Inr unsorted)
    from pos have "0 < time_bucket_hours * 3600" by simp
    from bucket_loop_terminates[OF this]
    obtain bs where "bucket_loop (time_bucket_hours * 3600) (sort_key tp_time unsorted)
        (midnight (tp_time (hd (sort_key tp_time unsorted)))) [] = Some bs"
      by blast
    with Inr show ?thesis by (simp add: network_timeline_def Let_def)
  qed
next
  assume zero: "time_bucket_hours = 0
        \<and> (\<exists>all_comms. timeline_comms users user_ids [] = Inr all_comms \<and> all_comms \<noteq> [])"
  then obtain unsorted where u: "timeline_comms users user_ids [] = Inr unsorted" "unsorted \<noteq> []"
    by blast
  let ?cs = "sort_key tp_time unsorted"
  have "?cs \<noteq> []" using u(2) by (metis length_0_conv length_sort)
  then have "tp_time (hd ?cs) \<le> tp_time (last ?cs)"
    by (intro hd_le_last_sorted) simp_all
  then have "midnight (tp_time (hd ?cs)) \<le> tp_time (last ?cs)"
    using midnight_le[of "tp_time (hd ?cs)"] by linarith
  from bucket_loop_zero[OF this] show "network_timeline users user_ids time_bucket_hours = None"
    using u zero by (simp add: network_timeline_def Let_def)
qed


lemma bucket_loop_example:
  "bucket_loop 86400 [\<lparr> tp_time = 90000, tp_pair = (''A'', ''B'') \<rparr>] 86400 [] =
     Some [\<lparr> b_start = 86400, b_end = 172800, active_pairs = [(''A'', ''B'')],
             unique_pair_count = 1, total_communications = 1 \<rparr>]"
  by (subst bucket_loop.simps, simp, subst bucket_loop.simps, simp)

theorem network_timeline_termination_witness:
  "(0::int) < 24
   \<and> network_timeline [calls_at ''B'' 90000] [''A''] 24 =
       Some (Inr [\<lparr> b_start = 86400, b_end = 172800, active_pairs = [(''A'', ''B'')],
                     unique_pair_count = 1, total_communications = 1 \<rparr>])
   \<and> timeline_comms [calls_at ''B'' 90000] [''A''] [] =
       Inr [\<lparr> tp_time = 90000, tp_pair = (''A'', ''B'') \<rparr>]
   \<and> network_timeline [calls_at ''B'' 90000] [''A''] 0 = None"
proof -
  have comms: "timeline_comms [calls_at ''B'' 90000] [''A''] [] =
       Inr [\<lparr> tp_time = 90000, tp_pair = (''A'', ''B'') \<rparr>]"
    by (simp add: sorted_pair_def calls_at_def mk_rec_def)
  have run: "network_timeline [calls_at ''B'' 90000] [''A''] 24 =
       Some (Inr [\<lparr> b_start = 86400, b_end = 172800, active_pairs = [(''A'', ''B'')],
                     unique_pair_count = 1, total_communications = 1 \<rparr>])"
    unfolding network_timeline_def comms
    by (simp add: midnight_def bucket_loop_example)
  show ?thesis
    using network_timeline_termination [of 0 "[calls_at ''B'' 90000]" "[''A'']"] comms run
    by simp
qed

section \<open>Properties of identify_bridges\<close>

lemma set_update_fresh:
  "k \<notin> fst ` set al \<Longrightarrow> set (AList.update k v al) = insert (k, v) (set al)"
  by (induction al) auto

lemma contacts_loop_set:
  assumes "length us \<le> length ids" and "distinct ids" and "set ids \<inter> fst ` set acc = {}"
  shows "\<exists>uc. contacts_loop all_ids us ids acc = Inr uc
           \<and> set uc = set acc \<union> (\<lambda>(u, i). (i, in_network_contacts_of all_ids u)) ` set (zip us ids)"
  using assms
proof (induction all_ids us ids acc rule: contacts_loop.induct)
  case (1 all_ids ids user_contacts)
  then show ?case by simp
next
  case (2 all_ids u us user_contacts)
  then show ?case by simp
next
  case (3 all_ids u us user_id ids user_contacts)
  let ?acc = "AList.update user_id (in_network_contacts_of all_ids u) user_contacts"
  from "3.prems" have fresh: "user_id \<notin> fst ` set user_contacts" by auto
  have acc: "set ?acc = insert (user_id, in_network_contacts_of all_ids u) (set user_contacts)"
    by (rule set_update_fresh[OF fresh])
  have "length us \<le> length ids" "distinct ids" using "3.prems" by simp_all
  moreover have "set ids \<inter> fst ` set ?acc = {}"
    using "3.prems" by (auto simp: acc)
  ultimately obtain uc where uc: "contacts_loop all_ids us ids ?acc = Inr uc"
    "set uc = set ?acc \<union> (\<lambda>(u, i). (i, in_network_contacts_of all_ids u)) ` set (zip us ids)"
    using "3.IH" by blast
  show ?case using uc by (auto simp: acc)
qed

lemma user_contacts_set:
  assumes "length users \<le> length user_ids" and "distinct user_ids"
  shows "\<exists>uc. contacts_loop user_ids users user_ids [] = Inr uc
           \<and> set uc = {(user_ids ! j, in_network_contacts_of user_ids (users ! j)) | j.
                         j < length users}"
proof -
  from contacts_loop_set[OF assms, of "[]" user_ids] obtain uc where
    uc: "contacts_loop user_ids users user_ids [] = Inr uc"
    "set uc = (\<lambda>(u, i). (i, in_network_contacts_of user_ids u)) ` set (zip users user_ids)"
    by auto
  have "set uc = {(user_ids ! j, in_network_contacts_of user_ids (users ! j)) | j.
                         j < length users}"
    unfolding uc(2) set_zip using assms(1) by (auto simp: image_def; force)
  with uc(1) show ?thesis by blast
qed

lemma contacts_loop_total:
  "length us \<le> length ids \<Longrightarrow> \<exists>uc. contacts_loop all_ids us ids acc = Inr uc"
  by (induction all_ids us ids acc rule: contacts_loop.induct) auto

lemma set_update_subset: "set (AList.update k v al) \<subseteq> insert (k, v) (set al)"
  by (induction al) auto

lemma contacts_loop_in_network:
  assumes "contacts_loop all_ids us ids acc = Inr uc"
    and "\<forall>item \<in> set acc. set (snd item) \<subseteq> Some ` set all_ids"
  shows "\<forall>item \<in> set uc. set (snd item) \<subseteq> Some ` set all_ids"
  using assms
proof (induction all_ids us ids acc rule: contacts_loop.induct)
  case (1 all_ids ids user_contacts)
  then show ?case by simp
next
  case (2 all_ids u us user_contacts)
  then show ?case by simp
next
  case (3 all_ids u us user_id ids user_contacts)
  let ?acc = "AList.update user_id (in_network_contacts_of all_ids u) user_contacts"
  have "\<forall>item \<in> set ?acc. set (snd item) \<subseteq> Some ` set all_ids"
  proof
    fix item assume "item \<in> set ?acc"
    then have "item = (user_id, in_network_contacts_of all_ids u) \<or> item \<in> set user_contacts"
      using set_update_subset[of user_id "in_network_contacts_of all_ids u" user_contacts] by auto
    then show "set (snd item) \<subseteq> Some ` set all_ids"
      using "3.prems"(2) by (auto simp: in_network_contacts_of_def)
  qed
  with "3.IH" "3.prems"(1) show ?case by simp
qed

lemma set_bridges:
  "identify_bridges users user_ids = Inr bridges \<Longrightarrow>
     \<exists>uc. contacts_loop user_ids users user_ids [] = Inr uc
          \<and> set bridges = (\<Union>item \<in> set uc. set (bridge_of uc item))"
  by (auto simp: identify_bridges_def split: sum.splits)

lemma bridge_of_elem:
  "b \<in> set (bridge_of uc item) \<Longrightarrow>
     bridge_user_id b = fst item
     \<and> set (exclusive_contacts b) =
         {c \<in> set (snd item). c \<notin> set (others_contacts uc (fst item)) \<and> c \<noteq> Some (fst item)}"
  by (auto simp: bridge_of_def Let_def split: if_splits)

lemma bridge_of_nonempty:
  "c \<in> set (snd item) \<Longrightarrow> c \<notin> set (others_contacts uc (fst item)) \<Longrightarrow> c \<noteq> Some (fst item)
     \<Longrightarrow> \<exists>b. bridge_of uc item = [b]"
  by (auto simp: bridge_of_def Let_def filter_empty_conv)

lemma set_others_contacts:
  "set (others_contacts uc k) = (\<Union>item \<in> {x \<in> set uc. fst x \<noteq> k}. set (snd item))"
  by (auto simp: others_contacts_def)


lemma in_network_contacts_of_iff:
  "c \<in> set (in_network_contacts_of user_ids u) \<longleftrightarrow>
     c \<in> correspondent_id ` set (records u) \<and> c \<in> Some ` set user_ids"
  by (auto simp: in_network_contacts_of_def contacts_of_def)

text \<open>
  C2, amended. \<open>identify_bridges\<close> counts in-network contacts only. Whenever there are at
  least as many identifiers as users it returns, and every contact it lists as exclusive
  is a modeled entity: a contact outside the network is listed under nobody. If the
  identifiers are pairwise distinct and entity X is the only modeled entity with a record
  whose correspondent is Z, where Z is itself a modeled entity other than X, then Z is
  listed among X's exclusive contacts and under no other entity's.
\<close>

theorem identify_bridges_exclusive:
  assumes len: "length users \<le> length user_ids"
  shows "\<exists>bridges. identify_bridges users user_ids = Inr bridges
     \<and> (\<forall>b \<in> set bridges. set (exclusive_contacts b) \<subseteq> Some ` set user_ids)
     \<and> (distinct user_ids \<and> i < length users \<and> Z \<in> set user_ids \<and> Z \<noteq> user_ids ! i
          \<and> Some Z \<in> correspondent_id ` set (records (users ! i))
          \<and> (\<forall>j < length users. j \<noteq> i \<longrightarrow> Some Z \<notin> correspondent_id ` set (records (users ! j)))
        \<longrightarrow> (\<exists>b \<in> set bridges. bridge_user_id b = user_ids ! i \<and> Some Z \<in> set (exclusive_contacts b))
            \<and> (\<forall>b \<in> set bridges. Some Z \<in> set (exclusive_contacts b) \<longrightarrow> bridge_user_id b = user_ids ! i))"
proof -
  from contacts_loop_total[OF len] obtain uc where
    uc: "contacts_loop user_ids users user_ids [] = Inr uc" by blast
  define bridges where
    "bridges = sort_key (\<lambda>b. - int (exclusive_count b)) (concat (map (bridge_of uc) uc))"
  have res: "identify_bridges users user_ids = Inr bridges"
    by (simp add: identify_bridges_def uc bridges_def)
  have set_b: "set bridges = (\<Union>item \<in> set uc. set (bridge_of uc item))"
    by (simp add: bridges_def)
  have innet: "\<forall>item \<in> set uc. set (snd item) \<subseteq> Some ` set user_ids"
    by (rule contacts_loop_in_network[OF uc]) simp
  have ext: "\<forall>b \<in> set bridges. set (exclusive_contacts b) \<subseteq> Some ` set user_ids"
  proof
    fix b assume "b \<in> set bridges"
    then obtain item where item: "item \<in> set uc" "b \<in> set (bridge_of uc item)"
      by (auto simp: set_b)
    from bridge_of_elem[OF item(2)] have "set (exclusive_contacts b) \<subseteq> set (snd item)"
      by auto
    with innet item(1) show "set (exclusive_contacts b) \<subseteq> Some ` set user_ids" by blast
  qed
  have main: "(\<exists>b \<in> set bridges. bridge_user_id b = user_ids ! i \<and> Some Z \<in> set (exclusive_contacts b))
            \<and> (\<forall>b \<in> set bridges. Some Z \<in> set (exclusive_contacts b) \<longrightarrow> bridge_user_id b = user_ids ! i)"
    if hyp: "distinct user_ids \<and> i < length users \<and> Z \<in> set user_ids \<and> Z \<noteq> user_ids ! i
          \<and> Some Z \<in> correspondent_id ` set (records (users ! i))
          \<and> (\<forall>j < length users. j \<noteq> i \<longrightarrow> Some Z \<notin> correspondent_id ` set (records (users ! j)))"
  proof -
    from hyp have dist: "distinct user_ids" and i: "i < length users" and Z: "Z \<in> set user_ids"
      and ZX: "Z \<noteq> user_ids ! i"
      and Zi: "Some Z \<in> correspondent_id ` set (records (users ! i))"
      and only: "\<And>j. j < length users \<Longrightarrow> j \<noteq> i \<Longrightarrow>
                   Some Z \<notin> correspondent_id ` set (records (users ! j))"
      by blast+
    from user_contacts_set[OF len dist] uc have set_uc:
      "set uc = {(user_ids ! j, in_network_contacts_of user_ids (users ! j)) | j. j < length users}"
      by simp
    let ?item = "(user_ids ! i, in_network_contacts_of user_ids (users ! i))"
    have item_in: "?item \<in> set uc" using i by (auto simp: set_uc)
    have owner: "j = i"
      if "j < length users" "Some Z \<in> set (in_network_contacts_of user_ids (users ! j))" for j
      using that only[of j] by (auto simp: in_network_contacts_of_iff)
    have Z_in: "Some Z \<in> set (snd ?item)"
      using Zi Z by (simp add: in_network_contacts_of_iff)
    have Z_out: "Some Z \<notin> set (others_contacts uc (fst ?item))"
    proof
      assume "Some Z \<in> set (others_contacts uc (fst ?item))"
      then obtain other where o: "other \<in> set uc" "fst other \<noteq> user_ids ! i"
        "Some Z \<in> set (snd other)"
        by (auto simp: set_others_contacts)
      from o(1) obtain j where j: "j < length users"
        "other = (user_ids ! j, in_network_contacts_of user_ids (users ! j))"
        by (auto simp: set_uc)
      from owner[OF j(1)] o(3) j(2) have "j = i" by simp
      with o(2) j(2) show False by simp
    qed
    from bridge_of_nonempty[OF Z_in Z_out] ZX obtain b where b: "bridge_of uc ?item = [b]"
      by auto
    then have b_in: "b \<in> set bridges" using item_in by (force simp: set_b)
    from b have "b \<in> set (bridge_of uc ?item)" by simp
    from bridge_of_elem[OF this] Z_in Z_out ZX
    have "bridge_user_id b = user_ids ! i \<and> Some Z \<in> set (exclusive_contacts b)" by simp
    with b_in have first: "\<exists>b \<in> set bridges. bridge_user_id b = user_ids ! i
        \<and> Some Z \<in> set (exclusive_contacts b)" by blast
    have second: "\<forall>b \<in> set bridges. Some Z \<in> set (exclusive_contacts b)
        \<longrightarrow> bridge_user_id b = user_ids ! i"
    proof (intro ballI impI)
      fix b' assume b': "b' \<in> set bridges" "Some Z \<in> set (exclusive_contacts b')"
      then obtain item where item: "item \<in> set uc" "b' \<in> set (bridge_of uc item)"
        by (auto simp: set_b)
      from item(1) obtain j where j: "j < length users"
        "item = (user_ids ! j, in_network_contacts_of user_ids (users ! j))"
        by (auto simp: set_uc)
      from bridge_of_elem[OF item(2)] b'(2)
      have "bridge_user_id b' = fst item" "Some Z \<in> set (snd item)" by auto
      with owner[OF j(1)] j(2) show "bridge_user_id b' = user_ids ! i" by simp
    qed
    from first second show ?thesis by blast
  qed
  from res ext main show ?thesis by blast
qed

lemmas bridges_eval = identify_bridges_def in_network_contacts_of_def contacts_of_def
  bridge_of_def others_contacts_def calls_at_def mk_rec_def Let_def

text \<open>
  C2 as stated fails. A is the only entity among A, B, C that contacts Z, and Z is not a
  modeled entity; yet Z is listed under nobody (the result is empty).
\<close>

theorem identify_bridges_external_counterexample:
  "identify_bridges [calls_at ''Z'' 0, calls_at ''A'' 10, calls_at ''A'' 20] [''A'', ''B'', ''C'']
     = Inr []
   \<and> contacts_of (calls_at ''Z'' 0) = [Some ''Z'']
   \<and> contacts_of (calls_at ''A'' 10) = [Some ''A'']
   \<and> contacts_of (calls_at ''A'' 20) = [Some ''A'']
   \<and> ''Z'' \<notin> set [''A'', ''B'', ''C'']"
  by (simp add: bridges_eval)

theorem identify_bridges_exclusive_witness:
  "length [calls_at ''B'' 0, calls_at ''A'' 10, calls_at ''A'' 20] \<le> length [''A'', ''B'', ''C'']
   \<and> distinct [''A'', ''B'', ''C'']
   \<and> Some ''B'' \<in> correspondent_id ` set (records (calls_at ''B'' 0))
   \<and> Some ''B'' \<notin> correspondent_id ` set (records (calls_at ''A'' 10))
   \<and> Some ''B'' \<notin> correspondent_id ` set (records (calls_at ''A'' 20))
   \<and> identify_bridges [calls_at ''B'' 0, calls_at ''A'' 10, calls_at ''A'' 20] [''A'', ''B'', ''C'']
     = Inr [\<lparr> bridge_user_id = ''A'', exclusive_contacts = [Some ''B''], exclusive_count = 1,
               bridge_total_contacts = 1 \<rparr>]"
  using identify_bridges_exclusive
          [of "[calls_at ''B'' 0, calls_at ''A'' 10, calls_at ''A'' 20]" "[''A'', ''B'', ''C'']"
              0 "''B''"]
  by (simp add: bridges_eval)

section \<open>Null correspondents in the network aggregations\<close>

lemma bump_bump: "bump (bump x a) b = bump x (a + b)"
  by (auto simp: bump_def split: option.splits)

lemma map_of_increment:
  "map_of (increment k m) k' = (if k' = k then bump (map_of m k) 1 else map_of m k')"
  by (simp add: increment_def update_conv' bump_def)

lemma map_of_foldl_increment:
  "map_of (foldl (\<lambda>m r. increment (f r) m) m rs) k =
     bump (map_of m k) (length (filter (\<lambda>r. f r = k) rs))"
proof (induction rs arbitrary: m)
  case Nil
  then show ?case by (simp add: bump_def)
next
  case (Cons r rs)
  show ?case
  proof (cases "f r = k")
    case True
    then show ?thesis
      using bump_bump[of "map_of m k" 1 "length (filter (\<lambda>r. f r = k) rs)"]
      by (simp add: Cons.IH map_of_increment)
  next
    case False
    then show ?thesis by (simp add: Cons.IH map_of_increment)
  qed
qed

lemma matrix_loop_count:
  "length us \<le> length ids \<Longrightarrow>
     \<exists>m'. matrix_loop us ids m = Inr m'
        \<and> (\<forall>k. map_of m' k = bump (map_of m k) (edge_count us ids k))"
proof (induction us ids m rule: matrix_loop.induct)
  case (1 ids matrix)
  then show ?case by (simp add: edge_count_def bump_def)
next
  case (2 u us matrix)
  then show ?case by simp
next
  case (3 u us user_id ids matrix)
  let ?m = "foldl (\<lambda>m r. increment (edge_of user_id r) m) matrix (records u)"
  from "3.prems" have "length us \<le> length ids" by simp
  from "3.IH"[OF this] obtain m' where m': "matrix_loop us ids ?m = Inr m'"
    "\<And>k. map_of m' k = bump (map_of ?m k) (edge_count us ids k)" by blast
  have "map_of m' k = bump (map_of matrix k) (edge_count (u # us) (user_id # ids) k)" for k
    by (simp add: m'(2) map_of_foldl_increment bump_bump edge_count_def)
  with m'(1) show ?case by simp
qed

lemma build_communication_matrix_count:
  assumes "length users \<le> length user_ids"
  shows "\<exists>m. build_communication_matrix users user_ids = Inr m
           \<and> (\<forall>k. map_of m k = (if edge_count users user_ids k = 0 then None
                                  else Some (int (edge_count users user_ids k))))"
  using matrix_loop_count[OF assms, of "[]"]
  by (auto simp: build_communication_matrix_def bump_def)

lemma edge_count_pos:
  assumes "i < length users" "length users \<le> length user_ids" "r \<in> set (records (users ! i))"
  shows "1 \<le> edge_count users user_ids (edge_of (user_ids ! i) r)"
proof -
  let ?g = "\<lambda>(u, j). length (filter (\<lambda>r'. edge_of j r' = edge_of (user_ids ! i) r) (records u))"
  have "(users ! i, user_ids ! i) \<in> set (zip users user_ids)"
    using assms(1,2) by (auto simp: set_zip)
  then have "?g (users ! i, user_ids ! i) \<le> sum_list (map ?g (zip users user_ids))"
    by (intro member_le_sum_list) auto
  moreover have "1 \<le> ?g (users ! i, user_ids ! i)"
    using assms(3) by (auto simp: Suc_le_eq length_greater_0_conv filter_empty_conv)
  ultimately show ?thesis by (simp add: edge_count_def)
qed

lemma map_of_sort_key_distinct:
  assumes "distinct (map fst al)"
  shows "map_of (sort_key f al) = map_of al"
proof -
  have "distinct (map fst (sort_key f al))"
    using assms by (simp add: distinct_map)
  then show ?thesis using assms by (simp add: map_of_inject_set)
qed

lemma centrality_loop_lookup:
  assumes "length us \<le> length ids" and "distinct ids" and "distinct (map fst acc)"
  shows "\<exists>res. centrality_loop all_ids us ids acc = Inr res
           \<and> distinct (map fst res)
           \<and> (\<forall>i < length us. map_of res (ids ! i) = Some (centrality_of all_ids (us ! i)))
           \<and> (\<forall>k. k \<notin> set ids \<longrightarrow> map_of res k = map_of acc k)"
  using assms
proof (induction all_ids us ids acc rule: centrality_loop.induct)
  case (1 all_ids ids results)
  then show ?case by simp
next
  case (2 all_ids u us results)
  then show ?case by simp
next
  case (3 all_ids u us user_id ids results)
  let ?acc = "AList.update user_id (centrality_of all_ids u) results"
  have "length us \<le> length ids" "distinct ids" "distinct (map fst ?acc)"
    using "3.prems" by (simp_all add: distinct_update)
  from "3.IH"[OF this] obtain res where res:
    "centrality_loop all_ids us ids ?acc = Inr res" "distinct (map fst res)"
    "\<And>i. i < length us \<Longrightarrow> map_of res (ids ! i) = Some (centrality_of all_ids (us ! i))"
    "\<And>k. k \<notin> set ids \<Longrightarrow> map_of res k = map_of ?acc k"
    by blast
  have fresh: "user_id \<notin> set ids" using "3.prems"(2) by simp
  have "map_of res ((user_id # ids) ! i) = Some (centrality_of all_ids ((u # us) ! i))"
    if "i < length (u # us)" for i
  proof (cases i)
    case 0
    then show ?thesis using res(4)[OF fresh] by (simp add: update_conv')
  next
    case (Suc j)
    then show ?thesis using res(3)[of j] that by simp
  qed
  moreover have "map_of res k = map_of results k" if "k \<notin> set (user_id # ids)" for k
    using res(4)[of k] that by (simp add: update_conv')
  ultimately show ?case using res(1,2) by auto
qed

lemma degree_centrality_lookup:
  assumes "length users \<le> length user_ids"
  shows "\<exists>d. degree_centrality users user_ids = Inr d
           \<and> (distinct user_ids \<longrightarrow>
                (\<forall>i < length users.
                   map_of d (user_ids ! i) = Some (centrality_of user_ids (users ! i))))"
proof (cases "distinct user_ids")
  case True
  from centrality_loop_lookup[OF assms True, of "[]" user_ids] obtain res where res:
    "centrality_loop user_ids users user_ids [] = Inr res" "distinct (map fst res)"
    "\<And>i. i < length users \<Longrightarrow> map_of res (user_ids ! i) = Some (centrality_of user_ids (users ! i))"
    by auto
  show ?thesis
    by (simp add: degree_centrality_def res(1) map_of_sort_key_distinct[OF res(2)] res(3))
next
  case False
  have "\<exists>res. centrality_loop all_ids us ids acc = Inr res" if "length us \<le> length ids"
    for all_ids us ids acc
    using that by (induction all_ids us ids acc rule: centrality_loop.induct) auto
  from this[OF assms] obtain res where "centrality_loop user_ids users user_ids [] = Inr res"
    by blast
  with False show ?thesis by (simp add: degree_centrality_def)
qed

lemma centrality_of_null:
  assumes "None \<in> correspondent_id ` set (records u)"
  shows "None \<in> set (out_of_network_list (centrality_of user_ids u))"
    and "total_contacts (centrality_of user_ids u) = card (correspondent_id ` set (records u))"
proof -
  show "None \<in> set (out_of_network_list (centrality_of user_ids u))"
    using assms by (auto simp: centrality_of_def contacts_of_def Let_def)
  show "total_contacts (centrality_of user_ids u) = card (correspondent_id ` set (records u))"
    by (simp add: centrality_of_def contacts_of_def Let_def length_remdups_card_conv)
qed


lemma extend_extend: "extend (extend x a) b = extend x (a @ b)"
  by (auto simp: extend_def split: option.splits)

lemma map_of_append_user:
  "map_of (append_user user_id m c) c' =
     (if c' = c then extend (map_of m c) [user_id] else map_of m c')"
  by (simp add: append_user_def update_conv' extend_def)

lemma distinct_append_user:
  "distinct (map fst m) \<Longrightarrow> distinct (map fst (append_user user_id m c))"
  by (simp add: append_user_def distinct_update)

lemma foldl_append_user:
  assumes "distinct cs"
  shows "map_of (foldl (append_user user_id) m cs) c =
           (if c \<in> set cs then extend (map_of m c) [user_id] else map_of m c)"
  using assms
proof (induction cs arbitrary: m)
  case Nil
  then show ?case by simp
next
  case (Cons c0 cs)
  then show ?case by (auto simp: map_of_append_user)
qed

lemma distinct_foldl_append_user:
  "distinct (map fst m) \<Longrightarrow> distinct (map fst (foldl (append_user user_id) m cs))"
  by (induction cs arbitrary: m) (simp_all add: distinct_append_user)

lemma shared_loop_lookup:
  assumes "length us \<le> length ids" and "distinct (map fst m)"
  shows "\<exists>m'. shared_loop us ids m = Inr m' \<and> distinct (map fst m')
           \<and> (\<forall>c. map_of m' c = extend (map_of m c) (sharers us ids c))"
  using assms
proof (induction us ids m rule: shared_loop.induct)
  case (1 ids m)
  then show ?case by (simp add: sharers_def extend_def)
next
  case (2 u us m)
  then show ?case by simp
next
  case (3 u us user_id ids m)
  let ?m = "foldl (append_user user_id) m (contacts_of u)"
  have "length us \<le> length ids" "distinct (map fst ?m)"
    using "3.prems" by (simp_all add: distinct_foldl_append_user)
  from "3.IH"[OF this] obtain m' where m': "shared_loop us ids ?m = Inr m'"
    "distinct (map fst m')" "\<And>c. map_of m' c = extend (map_of ?m c) (sharers us ids c)"
    by blast
  have dc: "distinct (contacts_of u)" by (simp add: contacts_of_def)
  have step: "map_of ?m c = (if c \<in> correspondent_id ` set (records u)
                             then extend (map_of m c) [user_id] else map_of m c)" for c
  proof -
    have "set (contacts_of u) = correspondent_id ` set (records u)"
      by (simp add: contacts_of_def)
    with foldl_append_user[OF dc, of user_id m c] show ?thesis by simp
  qed
  have sh: "sharers (u # us) (user_id # ids) c =
      (if c \<in> correspondent_id ` set (records u) then [user_id] else []) @ sharers us ids c" for c
    by (simp add: sharers_def)
  have "map_of m' c = extend (map_of m c) (sharers (u # us) (user_id # ids) c)" for c
  proof (cases "c \<in> correspondent_id ` set (records u)")
    case True
    then show ?thesis
      using extend_extend[of "map_of m c" "[user_id]" "sharers us ids c"]
      by (simp add: m'(3) step sh)
  next
    case False
    then show ?thesis by (simp add: m'(3) step sh)
  qed
  with m'(1,2) show ?case by simp
qed

lemma map_of_filter_distinct:
  "distinct (map fst al) \<Longrightarrow>
     map_of (filter P al) k =
       (case map_of al k of None \<Rightarrow> None | Some v \<Rightarrow> if P (k, v) then Some v else None)"
proof (induction al)
  case Nil
  then show ?case by simp
next
  case (Cons kv al)
  obtain k' v' where kv: "kv = (k', v')" by (cases kv)
  show ?case
  proof (cases "k' = k")
    case True
    with Cons.prems kv have "k \<notin> fst ` set al" by auto
    then have "map_of al k = None" "map_of (filter P al) k = None"
      by (auto simp: map_of_eq_None_iff)
    with True kv show ?thesis by simp
  next
    case False
    with Cons kv show ?thesis by simp
  qed
qed

lemma shared_contacts_lookup:
  assumes "length users \<le> length user_ids"
  shows "\<exists>s. shared_contacts users user_ids min_shared = Inr s
           \<and> (\<forall>c. map_of s c =
                (if sharers users user_ids c \<noteq> []
                      \<and> min_shared \<le> int (length (sharers users user_ids c))
                 then Some (sharers users user_ids c) else None))"
proof -
  from shared_loop_lookup[OF assms, of "[]"] obtain m where m:
    "shared_loop users user_ids [] = Inr m" "distinct (map fst m)"
    "\<And>c. map_of m c = extend None (sharers users user_ids c)"
    by auto
  let ?f = "filter (\<lambda>x. int (length (snd x)) \<ge> min_shared) m"
  have "distinct (map fst ?f)" using m(2) by (simp add: distinct_map_filter)
  then have "map_of (sort_key (\<lambda>x. - int (length (snd x))) ?f) c =
      (if sharers users user_ids c \<noteq> [] \<and> min_shared \<le> int (length (sharers users user_ids c))
       then Some (sharers users user_ids c) else None)" for c
    by (simp add: map_of_sort_key_distinct map_of_filter_distinct[OF m(2)] m(3) extend_def)
  then show ?thesis by (simp add: shared_contacts_def m(1))
qed

lemmas network_eval = build_communication_matrix_def degree_centrality_def shared_contacts_def
  communication_volume_matrix_def increment_def edge_of_def centrality_of_def contacts_of_def
  append_user_def sorted_pair_def null_caller_def calls_at_def mk_rec_def Let_def

text \<open>
  C3 as stated fails. A record with a null correspondent is not excluded: it is an edge
  of the communication matrix, a contact in degree centrality and in shared contacts, and
  the volume matrix raises on it.
\<close>

theorem null_correspondent_counterexample:
  "build_communication_matrix [null_caller] [''A''] = Inr [((Some ''A'', None), 1)]
   \<and> degree_centrality [null_caller] [''A''] =
       Inr [(''A'', \<lparr> total_contacts = 1, in_network_contacts = 0, out_of_network_contacts = 1,
                      in_network_list = [], out_of_network_list = [None] \<rparr>)]
   \<and> shared_contacts [null_caller] [''A''] 1 = Inr [(None, [''A''])]
   \<and> communication_volume_matrix [null_caller] [''A''] = Inl TypeError"
  by (simp add: network_eval)

text \<open>
  C3, amended. With at least as many identifiers as users, \<open>build_communication_matrix\<close>,
  \<open>degree_centrality\<close> and \<open>shared_contacts\<close> raise no error whatever the correspondents
  are, and a record whose correspondent is null is not excluded from them: it is counted
  in the matrix under its edge, whose other endpoint is null; null is a member of its
  entity's contact set in degree centrality (listed out of network and counted in the
  total, for pairwise distinct identifiers); and shared contacts has the key null, with
  every entity that has such a record, when there are at least \<open>min_shared\<close> of them.
\<close>

theorem null_correspondent_counted:
  assumes len: "length users \<le> length user_ids"
  shows "\<exists>m d s.
     build_communication_matrix users user_ids = Inr m
     \<and> degree_centrality users user_ids = Inr d
     \<and> shared_contacts users user_ids min_shared = Inr s
     \<and> (\<forall>i < length users. \<forall>r \<in> set (records (users ! i)). correspondent_id r = None \<longrightarrow>
          1 \<le> edge_count users user_ids (edge_of (user_ids ! i) r)
          \<and> map_of m (edge_of (user_ids ! i) r)
              = Some (int (edge_count users user_ids (edge_of (user_ids ! i) r))))
     \<and> (distinct user_ids \<longrightarrow>
          (\<forall>i < length users. None \<in> correspondent_id ` set (records (users ! i)) \<longrightarrow>
             (\<exists>c. map_of d (user_ids ! i) = Some c
                  \<and> None \<in> set (out_of_network_list c)
                  \<and> total_contacts c = card (correspondent_id ` set (records (users ! i))))))
     \<and> map_of s None =
          (if sharers users user_ids None \<noteq> []
                \<and> min_shared \<le> int (length (sharers users user_ids None))
           then Some (sharers users user_ids None) else None)"
proof -
  from build_communication_matrix_count[OF len] obtain m where m:
    "build_communication_matrix users user_ids = Inr m"
    "\<And>k. map_of m k = (if edge_count users user_ids k = 0 then None
                          else Some (int (edge_count users user_ids k)))"
    by blast
  from degree_centrality_lookup[OF len] obtain d where d:
    "degree_centrality users user_ids = Inr d"
    "distinct user_ids \<longrightarrow> (\<forall>i < length users.
        map_of d (user_ids ! i) = Some (centrality_of user_ids (users ! i)))"
    by blast
  from shared_contacts_lookup[OF len, of min_shared] obtain s where s:
    "shared_contacts users user_ids min_shared = Inr s"
    "\<And>c. map_of s c =
          (if sharers users user_ids c \<noteq> [] \<and> min_shared \<le> int (length (sharers users user_ids c))
           then Some (sharers users user_ids c) else None)"
    by blast
  have A: "\<forall>i < length users. \<forall>r \<in> set (records (users ! i)). correspondent_id r = None \<longrightarrow>
          1 \<le> edge_count users user_ids (edge_of (user_ids ! i) r)
          \<and> map_of m (edge_of (user_ids ! i) r)
              = Some (int (edge_count users user_ids (edge_of (user_ids ! i) r)))"
  proof (intro allI impI ballI)
    fix i r assume i: "i < length users" and r: "r \<in> set (records (users ! i))"
    from edge_count_pos[OF i len r]
    have "1 \<le> edge_count users user_ids (edge_of (user_ids ! i) r)" .
    then show "1 \<le> edge_count users user_ids (edge_of (user_ids ! i) r)
          \<and> map_of m (edge_of (user_ids ! i) r)
              = Some (int (edge_count users user_ids (edge_of (user_ids ! i) r)))"
      by (simp add: m(2))
  qed
  have B: "distinct user_ids \<longrightarrow>
          (\<forall>i < length users. None \<in> correspondent_id ` set (records (users ! i)) \<longrightarrow>
             (\<exists>c. map_of d (user_ids ! i) = Some c
                  \<and> None \<in> set (out_of_network_list c)
                  \<and> total_contacts c = card (correspondent_id ` set (records (users ! i)))))"
    using d(2) centrality_of_null by blast
  from m(1) d(1) s(1) A B s(2)[of None] show ?thesis by blast
qed

theorem null_correspondent_counted_witness:
  "length [null_caller, calls_at ''A'' 5] \<le> length [''A'', ''B'']
   \<and> distinct [''A'', ''B'']
   \<and> build_communication_matrix [null_caller, calls_at ''A'' 5] [''A'', ''B'']
       = Inr [((Some ''A'', None), 1), ((Some ''B'', Some ''A''), 1)]
   \<and> degree_centrality [null_caller, calls_at ''A'' 5] [''A'', ''B'']
       = Inr [(''A'', \<lparr> total_contacts = 1, in_network_contacts = 0,
                         out_of_network_contacts = 1,
                         in_network_list = [], out_of_network_list = [None] \<rparr>),
              (''B'', \<lparr> total_contacts = 1, in_network_contacts = 1,
                         out_of_network_contacts = 0,
                         in_network_list = [Some ''A''], out_of_network_list = [] \<rparr>)]
   \<and> shared_contacts [null_caller, calls_at ''A'' 5] [''A'', ''B''] 1
       = Inr [(None, [''A'']), (Some ''A'', [''B''])]
   \<and> sharers [null_caller, calls_at ''A'' 5] [''A'', ''B''] None = [''A'']"
  using null_correspondent_counted [of "[null_caller, calls_at ''A'' 5]" "[''A'', ''B'']" 1]
  by (simp add: network_eval sharers_def)

end
